theory Spec2Isabelle
  imports Complex_Main
begin

section \<open>Python strings\<close>

text \<open>
  A Python \<^verbatim>\<open>str\<close> is a sequence of Unicode code points and \<^verbatim>\<open>len\<close> counts code
  points, so a character is modelled by its code point and a string by the list of them.
  \<open>str\<close> embeds an ASCII literal.
\<close>

type_synonym pychar = nat
type_synonym pystr = "pychar list"

definition str :: "string \<Rightarrow> pystr" where
  "str s = map of_char s"

definition ch_hash :: pychar where
  "ch_hash = 35"

definition ch_space :: pychar where
  "ch_space = 32"

definition ch_nl :: pychar where
  "ch_nl = 10"

text \<open>The separator \<^verbatim>\<open>"\n\n"\<close> used by the merge pass and by the final join.\<close>

definition sep :: pystr where
  "sep = [ch_nl, ch_nl]"

text \<open>
  \<^verbatim>\<open>str.strip()\<close> without argument removes the characters for which \<^verbatim>\<open>str.isspace\<close>
  holds: U+0009..U+000D, U+001C..U+0020, U+0085, U+00A0, U+1680, U+2000..U+200A, U+2028,
  U+2029, U+202F, U+205F and U+3000.
\<close>

definition is_space :: "pychar \<Rightarrow> bool" where
  "is_space c \<longleftrightarrow>
     (9 \<le> c \<and> c \<le> 13) \<or> (28 \<le> c \<and> c \<le> 32) \<or> c = 133 \<or> c = 160 \<or> c = 5760 \<or>
     (8192 \<le> c \<and> c \<le> 8202) \<or> c = 8232 \<or> c = 8233 \<or> c = 8239 \<or> c = 8287 \<or> c = 12288"

definition lstrip :: "pystr \<Rightarrow> pystr" where
  "lstrip s = dropWhile is_space s"

definition rstrip :: "pystr \<Rightarrow> pystr" where
  "rstrip s = rev (dropWhile is_space (rev s))"

definition strip :: "pystr \<Rightarrow> pystr" where
  "strip s = rstrip (lstrip s)"

text \<open>\<^verbatim>\<open>sep.join(xs)\<close>.\<close>

fun join :: "pystr \<Rightarrow> pystr list \<Rightarrow> pystr" where
  "join s [] = []"
| "join s [x] = x"
| "join s (x # y # ys) = x @ s @ join s (y # ys)"

section \<open>The chunker (\<^verbatim>\<open>MarkdownChunker\<close>)\<close>

text \<open>
  The exceptions of the model. \<open>IndexError\<close> and \<open>AttributeError\<close> are the built-in ones;
  \<open>ClientError\<close> stands for whatever the remote client raises (network, authentication,
  quota). All of them are instances of the class \<^verbatim>\<open>Exception\<close>.
\<close>

datatype error = IndexError | AttributeError | ClientError string

text \<open>
  The pattern \<^verbatim>\<open>#{1,6} .*\<close> tried at the head of \<open>s\<close>: between one and six \<^verbatim>\<open>#\<close>, then a
  space; \<^verbatim>\<open>.*\<close> always matches. A space is not a \<^verbatim>\<open>#\<close>, so the run of \<^verbatim>\<open>#\<close> that the
  pattern consumes is the whole run at the head of \<open>s\<close>.
\<close>

definition heading_here :: "pystr \<Rightarrow> bool" where
  "heading_here s =
     (let k = length (takeWhile (\<lambda>c. c = ch_hash) s) in
      1 \<le> k \<and> k \<le> 6 \<and>
      (case dropWhile (\<lambda>c. c = ch_hash) s of [] \<Rightarrow> False | d # _ \<Rightarrow> d = ch_space))"

text \<open>
  \<^verbatim>\<open>re.split(r"(?=^#{1,6} .*)", text, flags=re.MULTILINE)\<close>. The pattern is a lookahead,
  so every match is empty; with \<^verbatim>\<open>MULTILINE\<close>, \<^verbatim>\<open>^\<close> holds at position 0 and after each
  \<^verbatim>\<open>\n\<close>. \<^verbatim>\<open>re.split\<close> cuts the text at every position where the pattern matches, and a
  match at position 0 gives an empty first piece. \<open>bol\<close> says that the current position
  is at the beginning of a line, \<open>cur\<close> is the piece collected since the last cut.
\<close>

fun re_split_from :: "bool \<Rightarrow> pystr \<Rightarrow> pystr \<Rightarrow> pystr list" where
  "re_split_from bol cur [] = [cur]"
| "re_split_from bol cur (c # s) =
     (if bol \<and> heading_here (c # s)
      then cur # re_split_from (c = ch_nl) [c] s
      else re_split_from (c = ch_nl) (cur @ [c]) s)"

definition re_split :: "pystr \<Rightarrow> pystr list" where
  "re_split text = re_split_from True [] text"

text \<open>
  The loop of \<^verbatim>\<open>_merge_small_chunks\<close>: \<open>merged\<close> is \<^verbatim>\<open>merged_chunks\<close>, the last argument is
  the deque. \<^verbatim>\<open>merged_chunks[-1]\<close> raises \<^verbatim>\<open>IndexError\<close> on an empty list.
\<close>

fun merge_loop :: "int \<Rightarrow> pystr list \<Rightarrow> pystr list \<Rightarrow> error + pystr list" where
  "merge_loop mn merged [] = Inr merged"
| "merge_loop mn merged (chunk # chunks) =
     (if int (length chunk) > mn then merge_loop mn (merged @ [chunk]) chunks
      else (case chunks of
              nxt # rest \<Rightarrow> merge_loop mn merged ((chunk @ sep @ nxt) # rest)
            | [] \<Rightarrow>
                if merged = [] then Inl IndexError
                else merge_loop mn (butlast merged @ [last merged @ sep @ chunk]) []))"

definition merge_small_chunks :: "int \<Rightarrow> pystr list \<Rightarrow> error + pystr list" where
  "merge_small_chunks mn small_chunks =
     (if length small_chunks \<le> 1 then Inr small_chunks
      else merge_loop mn [] small_chunks)"

definition split_markdown :: "int \<Rightarrow> int \<Rightarrow> pystr \<Rightarrow> error + pystr list" where
  "split_markdown mx mn markdown_text =
     (if int (length markdown_text) \<le> mx then Inr [markdown_text]
      else merge_small_chunks mn
             (map strip (filter (\<lambda>chunk. strip chunk \<noteq> []) (re_split markdown_text))))"

section \<open>What a chunk keeps of the text\<close>

text \<open>The non-whitespace characters of a string, in order.\<close>

definition non_space :: "pystr \<Rightarrow> pystr" where
  "non_space s = filter (\<lambda>c. \<not> is_space c) s"

text \<open>
  A chunk starts like a heading whose line may have lost its text: between one and six
  \<^verbatim>\<open>#\<close>, followed by a space, by the end of the chunk, or by the separator \<^verbatim>\<open>"\n\n"\<close>.
\<close>

definition heading_start :: "pystr \<Rightarrow> bool" where
  "heading_start s =
     (let k = length (takeWhile (\<lambda>c. c = ch_hash) s);
          r = dropWhile (\<lambda>c. c = ch_hash) s in
      1 \<le> k \<and> k \<le> 6 \<and> (r = [] \<or> hd r = ch_space \<or> take 2 r = sep))"

section \<open>The transform step and the driving loop\<close>

text \<open>
  The answer of the chat completion endpoint, as far as the code reads it:
  \<^verbatim>\<open>response.choices[0].message.content\<close> (which may be \<^verbatim>\<open>None\<close>) and \<^verbatim>\<open>response.usage\<close>.
\<close>

record usage_info =
  prompt_tokens :: nat
  completion_tokens :: nat

record choice =
  content :: "pystr option"

record response =
  choices :: "choice list"
  usage :: "usage_info option"

text \<open>
  The remote service is a parameter: \<open>client k chunk\<close> is what the \<open>k\<close>-th call of
  \<^verbatim>\<open>client.chat.completions.create\<close> does when it is sent \<open>chunk\<close>, either raising or
  returning a response. The loop makes exactly one call per chunk, so the number of the
  call is the index of the chunk.
\<close>

type_synonym client = "nat \<Rightarrow> pystr \<Rightarrow> error + response"

text \<open>\<^verbatim>\<open>response.choices[0].message.content.strip()\<close>.\<close>

definition first_content :: "response \<Rightarrow> error + pystr" where
  "first_content r =
     (case choices r of
        [] \<Rightarrow> Inl IndexError
      | c # _ \<Rightarrow> (case content c of None \<Rightarrow> Inl AttributeError | Some t \<Rightarrow> Inr (strip t)))"

text \<open>
  The body of the \<^verbatim>\<open>try\<close> of \<^verbatim>\<open>translate_chunk\<close> in \<^verbatim>\<open>translator.py\<close>; it reads
  \<^verbatim>\<open>usage.prompt_tokens\<close> of \<^verbatim>\<open>response.usage\<close> without a test.
\<close>

definition translate_try :: "client \<Rightarrow> pystr \<Rightarrow> nat \<Rightarrow> error + pystr" where
  "translate_try cl chunk chunk_index =
     (case cl chunk_index chunk of
        Inl e \<Rightarrow> Inl e
      | Inr r \<Rightarrow>
          (case first_content r of
             Inl e \<Rightarrow> Inl e
           | Inr translated \<Rightarrow>
               (case usage r of None \<Rightarrow> Inl AttributeError | Some u \<Rightarrow> Inr translated)))"

text \<open>\<^verbatim>\<open>translate_chunk\<close> of \<^verbatim>\<open>translator.py\<close>: \<^verbatim>\<open>except Exception\<close> returns the chunk.\<close>

definition translate_chunk :: "client \<Rightarrow> pystr \<Rightarrow> nat \<Rightarrow> nat \<Rightarrow> pystr" where
  "translate_chunk cl chunk chunk_index total_chunks =
     (case translate_try cl chunk chunk_index of Inl e \<Rightarrow> chunk | Inr translated \<Rightarrow> translated)"

text \<open>
  The body of the \<^verbatim>\<open>try\<close> of \<^verbatim>\<open>translate_chunk\<close> in \<^verbatim>\<open>translate_markdown.py\<close> and of
  \<^verbatim>\<open>fix_chunk\<close> in \<^verbatim>\<open>fix_markdown.py\<close>; \<^verbatim>\<open>usage\<close> is read with \<^verbatim>\<open>getattr\<close> and tested.
\<close>

definition cli_try :: "client \<Rightarrow> pystr \<Rightarrow> nat \<Rightarrow> error + pystr" where
  "cli_try cl chunk i =
     (case cl i chunk of Inl e \<Rightarrow> Inl e | Inr resp \<Rightarrow> first_content resp)"

definition translate_chunk_cli :: "client \<Rightarrow> pystr \<Rightarrow> nat \<Rightarrow> nat \<Rightarrow> pystr" where
  "translate_chunk_cli cl chunk i tot =
     (case cli_try cl chunk i of Inl e \<Rightarrow> chunk | Inr out \<Rightarrow> out)"

definition fix_chunk :: "client \<Rightarrow> pystr \<Rightarrow> nat \<Rightarrow> nat \<Rightarrow> pystr" where
  "fix_chunk cl chunk chunk_index total_chunks =
     (case cli_try cl chunk chunk_index of Inl e \<Rightarrow> chunk | Inr fixed \<Rightarrow> fixed)"

text \<open>
  What the loop does to the outside, in order: \<open>Transform i\<close> is the transform of chunk
  \<open>i\<close>, \<open>Sleep d\<close> is \<^verbatim>\<open>time.sleep(d)\<close>. The delay is a real number.
\<close>

datatype event = Transform nat | Sleep real

text \<open>
  \<^verbatim>\<open>for i, chunk in enumerate(chunks)\<close>: the result of the per-chunk transform is
  appended, then \<^verbatim>\<open>if i < len(chunks) - 1 and delay > 0: time.sleep(delay)\<close>. \<open>tot\<close> is
  \<^verbatim>\<open>len(chunks)\<close>, \<open>i\<close> the index of the first chunk left.
\<close>

fun process_chunks ::
  "(pystr \<Rightarrow> nat \<Rightarrow> nat \<Rightarrow> pystr) \<Rightarrow> real \<Rightarrow> nat \<Rightarrow> nat \<Rightarrow> pystr list \<Rightarrow> pystr list \<times> event list"
where
  "process_chunks per_chunk delay tot i [] = ([], [])"
| "process_chunks per_chunk delay tot i (chunk # rest) =
     (let out = per_chunk chunk i tot;
          pause = (if int i < int tot - 1 \<and> delay > 0 then [Sleep delay] else []);
          r = process_chunks per_chunk delay tot (Suc i) rest
      in (out # fst r, Transform i # pause @ snd r))"

text \<open>
  \<^verbatim>\<open>translate_text\<close> of \<^verbatim>\<open>translate_markdown.py\<close> and \<^verbatim>\<open>fix_text\<close> of \<^verbatim>\<open>fix_markdown.py\<close>:
  split, transform each chunk, join with \<^verbatim>\<open>"\n\n"\<close>. An exception of the chunker is not
  caught. The result is the output document and the trace of events.
\<close>

definition run_chunks ::
  "(pystr \<Rightarrow> nat \<Rightarrow> nat \<Rightarrow> pystr) \<Rightarrow> real \<Rightarrow> pystr list \<Rightarrow> pystr \<times> event list" where
  "run_chunks per_chunk delay chunks =
     (let r = process_chunks per_chunk delay (length chunks) 0 chunks
      in (join sep (fst r), snd r))"

definition translate_text ::
  "client \<Rightarrow> int \<Rightarrow> int \<Rightarrow> real \<Rightarrow> pystr \<Rightarrow> error + pystr \<times> event list" where
  "translate_text cl mx mn delay text =
     (case split_markdown mx mn text of
        Inl e \<Rightarrow> Inl e
      | Inr chunks \<Rightarrow> Inr (run_chunks (translate_chunk_cli cl) delay chunks))"

definition fix_text ::
  "client \<Rightarrow> int \<Rightarrow> int \<Rightarrow> real \<Rightarrow> pystr \<Rightarrow> error + pystr \<times> event list" where
  "fix_text cl mx mn delay markdown_text =
     (case split_markdown mx mn markdown_text of
        Inl e \<Rightarrow> Inl e
      | Inr chunks \<Rightarrow> Inr (run_chunks (fix_chunk cl) delay chunks))"

text \<open>
  \<^verbatim>\<open>translate_file\<close> of \<^verbatim>\<open>translator.py\<close>, on the text read from the input file; the
  same loop, with the \<^verbatim>\<open>translate_chunk\<close> of that file. The returned string is also
  what is written to the output file.
\<close>

definition translate_file ::
  "client \<Rightarrow> int \<Rightarrow> int \<Rightarrow> real \<Rightarrow> pystr \<Rightarrow> error + pystr \<times> event list" where
  "translate_file cl mx mn delay markdown_text =
     (case split_markdown mx mn markdown_text of
        Inl e \<Rightarrow> Inl e
      | Inr chunks \<Rightarrow> Inr (run_chunks (translate_chunk cl) delay chunks))"

text \<open>The pauses of a trace.\<close>

fun is_sleep :: "event \<Rightarrow> bool" where
  "is_sleep (Sleep d) = True"
| "is_sleep (Transform i) = False"

section \<open>Splitting keeps the text\<close>

text \<open>
  \<^verbatim>\<open>re.split\<close> only cuts: the pieces concatenated are the text. \<^verbatim>\<open>strip\<close> and the
  separator only remove or add whitespace.
\<close>

lemma concat_re_split_from: "concat (re_split_from bol cur s) = cur @ s"
  by (induction s arbitrary: bol cur) simp_all

lemma concat_re_split: "concat (re_split text) = text"
  by (simp add: re_split_def concat_re_split_from)

lemma non_space_append: "non_space (a @ b) = non_space a @ non_space b"
  by (simp add: non_space_def)

lemma non_space_sep: "non_space sep = []"
  by (simp add: non_space_def sep_def ch_nl_def is_space_def)

lemma filter_dropWhile_not: "filter (\<lambda>c. \<not> P c) (dropWhile P xs) = filter (\<lambda>c. \<not> P c) xs"
  by (induction xs) simp_all

lemma non_space_lstrip: "non_space (lstrip s) = non_space s"
  by (simp add: non_space_def lstrip_def filter_dropWhile_not)

lemma non_space_rstrip: "non_space (rstrip s) = non_space s"
proof -
  have "filter (\<lambda>c. \<not> is_space c) (rev (dropWhile is_space (rev s)))
        = rev (filter (\<lambda>c. \<not> is_space c) (dropWhile is_space (rev s)))"
    by (simp only: rev_filter)
  also have "\<dots> = rev (filter (\<lambda>c. \<not> is_space c) (rev s))"
    by (simp only: filter_dropWhile_not)
  also have "\<dots> = filter (\<lambda>c. \<not> is_space c) s"
    by (simp add: rev_filter)
  finally show ?thesis by (simp add: non_space_def rstrip_def)
qed

lemma non_space_strip: "non_space (strip s) = non_space s"
  by (simp add: strip_def non_space_rstrip non_space_lstrip)

lemma non_space_concat_kept:
  "non_space (concat (map strip (filter (\<lambda>chunk. strip chunk \<noteq> []) ps))) = non_space (concat ps)"
proof (induction ps)
  case Nil
  show ?case by simp
next
  case (Cons p ps)
  show ?case
  proof (cases "strip p = []")
    case True
    have "non_space p = non_space (strip p)" by (simp only: non_space_strip)
    with True have "non_space p = []" by (simp add: non_space_def)
    with True Cons show ?thesis by (simp add: non_space_append)
  next
    case False
    with Cons show ?thesis by (simp add: non_space_append non_space_strip)
  qed
qed

subsection \<open>One iteration of the merge loop\<close>

text \<open>
  The four ways through the body of the \<^verbatim>\<open>while\<close>: the chunk is finalized, folded into
  its successor, appended to the last finalized chunk, or \<^verbatim>\<open>merged_chunks[-1]\<close> raises.
  The loop is then reasoned about by these equations and induction along its own recursion.
\<close>

lemma merge_loop_big:
  "mn < int (length chunk) \<Longrightarrow>
   merge_loop mn merged (chunk # chunks) = merge_loop mn (merged @ [chunk]) chunks"
  by (subst merge_loop.simps(2)) (simp only: if_True)

lemma merge_loop_fold:
  "\<not> mn < int (length chunk) \<Longrightarrow>
   merge_loop mn merged (chunk # nxt # rest) = merge_loop mn merged ((chunk @ sep @ nxt) # rest)"
  by (subst merge_loop.simps(2)) (simp only: if_False list.case)

lemma merge_loop_tail:
  "\<not> mn < int (length chunk) \<Longrightarrow> merged \<noteq> [] \<Longrightarrow>
   merge_loop mn merged [chunk] = Inr (butlast merged @ [last merged @ sep @ chunk])"
  by (subst merge_loop.simps(2)) (simp only: if_False list.case merge_loop.simps(1))

lemma merge_loop_raise:
  "\<not> mn < int (length chunk) \<Longrightarrow> merge_loop mn [] [chunk] = Inl IndexError"
  by (subst merge_loop.simps(2)) simp

declare merge_loop.simps(2) [simp del]

lemma merge_loop_non_space:
  "merge_loop mn merged q = Inr r \<Longrightarrow>
   non_space (concat r) = non_space (concat merged) @ non_space (concat q)"
proof (induction mn merged q rule: merge_loop.induct)
  case (1 mn merged)
  then show ?case by (simp add: non_space_def)
next
  case (2 mn merged chunk chunks)
  show ?case
  proof (cases "int (length chunk) > mn")
    case True
    with 2 show ?thesis by (simp add: merge_loop_big non_space_append)
  next
    case False
    show ?thesis
    proof (cases chunks)
      case (Cons nxt rest)
      with False 2 show ?thesis by (simp add: merge_loop_fold non_space_append non_space_sep)
    next
      case Nil
      show ?thesis
      proof (cases "merged = []")
        case True
        with Nil False 2(4) show ?thesis by (simp add: merge_loop_raise)
      next
        case ne: False
        then have m: "butlast merged @ [last merged] = merged" by simp
        from Nil False 2(4) ne have "r = butlast merged @ [last merged @ sep @ chunk]"
          by (simp add: merge_loop_tail)
        then have "non_space (concat r) =
            non_space (concat (butlast merged)) @ non_space (last merged) @ non_space chunk"
          by (simp add: non_space_append non_space_sep)
        moreover have "non_space (concat (butlast merged @ [last merged])) =
            non_space (concat (butlast merged)) @ non_space (last merged)"
          by (simp add: non_space_append)
        ultimately show ?thesis using Nil m by simp
      qed
    qed
  qed
qed

lemma merge_small_chunks_non_space:
  "merge_small_chunks mn cs = Inr r \<Longrightarrow> non_space (concat r) = non_space (concat cs)"
  by (auto simp: merge_small_chunks_def non_space_def dest: merge_loop_non_space split: if_splits)

lemma merge_loop_min:
  "merge_loop mn merged q = Inr r \<Longrightarrow> \<forall>c\<in>set merged. mn < int (length c) \<Longrightarrow>
   \<forall>c\<in>set r. mn < int (length c)"
proof (induction mn merged q rule: merge_loop.induct)
  case (1 mn merged)
  then show ?case by simp
next
  case (2 mn merged chunk chunks)
  note run = \<open>merge_loop mn merged (chunk # chunks) = Inr r\<close>
  note inv = \<open>\<forall>c\<in>set merged. mn < int (length c)\<close>
  show ?case
  proof (cases "mn < int (length chunk)")
    case True
    from run True have "merge_loop mn (merged @ [chunk]) chunks = Inr r"
      by (simp add: merge_loop_big)
    moreover from inv True have "\<forall>c\<in>set (merged @ [chunk]). mn < int (length c)"
      by simp
    ultimately show ?thesis by (rule "2.IH"(1) [OF True])
  next
    case False
    show ?thesis
    proof (cases chunks)
      case (Cons nxt rest)
      from run False Cons have "merge_loop mn merged ((chunk @ sep @ nxt) # rest) = Inr r"
        by (simp add: merge_loop_fold)
      then show ?thesis using inv by (rule "2.IH"(3) [OF False Cons])
    next
      case Nil
      show ?thesis
      proof (cases "merged = []")
        case True
        from run have "merge_loop mn [] [chunk] = Inr r" by (simp only: Nil True)
        with False show ?thesis by (simp add: merge_loop_raise)
      next
        case ne: False
        from run have "merge_loop mn merged [chunk] = Inr r" by (simp only: Nil)
        with False ne have r: "r = butlast merged @ [last merged @ sep @ chunk]"
          by (simp add: merge_loop_tail)
        from ne inv have "mn < int (length (last merged))" by simp
        then have "mn < int (length (last merged @ sep @ chunk))" by simp
        moreover have "\<forall>c\<in>set (butlast merged). mn < int (length c)"
          using inv by (auto dest: in_set_butlastD)
        ultimately show ?thesis unfolding r by simp
      qed
    qed
  qed
qed

section \<open>Texts made of whitespace\<close>

text \<open>
  No position of such a text starts a heading, so \<^verbatim>\<open>re.split\<close> returns it whole, and
  \<^verbatim>\<open>strip\<close> empties it.
\<close>

lemma not_space_hash: "\<not> is_space ch_hash"
  by (simp add: is_space_def ch_hash_def)

lemma heading_here_hash: "heading_here (c # s) \<Longrightarrow> c = ch_hash"
  by (cases "c = ch_hash") (simp_all add: heading_here_def)

lemma re_split_from_spaces:
  "list_all is_space s \<Longrightarrow> re_split_from bol cur s = [cur @ s]"
proof (induction s arbitrary: bol cur)
  case Nil
  show ?case by simp
next
  case (Cons c s)
  then have "c \<noteq> ch_hash" using not_space_hash by auto
  then have "\<not> heading_here (c # s)" using heading_here_hash by blast
  with Cons show ?case by simp
qed

lemma strip_spaces: "list_all is_space s \<Longrightarrow> strip s = []"
proof -
  assume "list_all is_space s"
  then have "dropWhile is_space s = []" by (induction s) simp_all
  then show ?thesis
    by (simp only: strip_def lstrip_def rstrip_def rev.simps dropWhile.simps)
qed

lemma split_markdown_spaces:
  "int (length text) > mx \<Longrightarrow> list_all is_space text \<Longrightarrow> split_markdown mx mn text = Inr []"
  by (simp add: split_markdown_def re_split_def re_split_from_spaces strip_spaces
      merge_small_chunks_def)

lemma run_chunks_Nil: "run_chunks f delay [] = ([], [])"
  by (simp add: run_chunks_def)

section \<open>The driving loop\<close>



lemma process_chunks_trace:
  "snd (process_chunks f delay tot i cs) =
   concat (map (\<lambda>j. Transform j # (if int j < int tot - 1 \<and> delay > 0 then [Sleep delay] else []))
     [i..<i + length cs])"
proof (induction cs arbitrary: i)
  case Nil
  show ?case by simp
next
  case (Cons c cs)
  have "[i..<i + length (c # cs)] = i # [Suc i..<Suc i + length cs]"
    by (subst upt_rec) simp
  with Cons [of "Suc i"] show ?case by (simp add: Let_def)
qed

lemma sleeps_count:
  "m \<le> n \<Longrightarrow>
   length (filter is_sleep (concat (map
     (\<lambda>i. if Suc i < n then [Transform i, Sleep d] else [Transform i]) [0..<m]))) = min m (n - 1)"
  by (induction m) auto

lemma run_chunks_trace_paused:
  assumes "0 < delay"
  shows "snd (run_chunks f delay chunks) =
    concat (map (\<lambda>i. if Suc i < length chunks then [Transform i, Sleep delay] else [Transform i])
      [0..<length chunks])"
proof -
  have "(\<lambda>j. Transform j # (if int j < int (length chunks) - 1 \<and> delay > 0 then [Sleep delay] else []))
      = (\<lambda>i. if Suc i < length chunks then [Transform i, Sleep delay] else [Transform i])"
    using assms by (auto simp: fun_eq_iff)
  then show ?thesis
    by (simp add: run_chunks_def Let_def process_chunks_trace)
qed

lemma run_chunks_trace_unpaused:
  assumes "\<not> 0 < delay"
  shows "snd (run_chunks f delay chunks) = map Transform [0..<length chunks]"
proof -
  have "(\<lambda>j. Transform j # (if int j < int (length chunks) - 1 \<and> delay > 0 then [Sleep delay] else []))
      = (\<lambda>i. [Transform i])"
    using assms by (auto simp: fun_eq_iff)
  moreover have "concat (map (\<lambda>i. [Transform i]) xs) = map Transform xs" for xs :: "nat list"
    by (induction xs) simp_all
  ultimately show ?thesis
    by (simp add: run_chunks_def Let_def process_chunks_trace)
qed

lemma filter_sleep_map_Transform: "filter is_sleep (map Transform xs) = []"
  by (induction xs) simp_all








section \<open>Headings at the start of chunks\<close>

text \<open>
  Every piece of \<^verbatim>\<open>re.split\<close> but the first starts where the pattern matched. \<^verbatim>\<open>strip\<close>
  keeps the \<^verbatim>\<open>#\<close> of such a piece but may remove the space after them; the folds of the
  merge pass append to a chunk and never put anything before its first character,
  except for the first chunk.
\<close>

lemma space_not_hash: "ch_space \<noteq> ch_hash"
  by (simp add: ch_space_def ch_hash_def)

lemma nl_not_hash: "ch_nl \<noteq> ch_hash"
  by (simp add: ch_nl_def ch_hash_def)

lemma is_space_space: "is_space ch_space"
  by (simp add: is_space_def ch_space_def)

lemma hashes_run:
  "takeWhile (\<lambda>c. c = a) s = replicate (length (takeWhile (\<lambda>c. c = a) s)) a"
  by (induction s) simp_all

lemma takeWhile_hashes:
  "r = [] \<or> hd r \<noteq> a \<Longrightarrow> takeWhile (\<lambda>c. c = a) (replicate k a @ r) = replicate k a"
proof (induction k)
  case 0
  then show ?case by (cases r) auto
next
  case (Suc k)
  then show ?case by simp
qed

lemma dropWhile_hashes:
  "r = [] \<or> hd r \<noteq> a \<Longrightarrow> dropWhile (\<lambda>c. c = a) (replicate k a @ r) = r"
proof (induction k)
  case 0
  then show ?case by (cases r) auto
next
  case (Suc k)
  then show ?case by simp
qed

lemma heading_hereE:
  assumes "heading_here s"
  shows "\<exists>k rest. 1 \<le> k \<and> k \<le> 6 \<and> s = replicate k ch_hash @ ch_space # rest"
proof -
  let ?P = "\<lambda>c. c = ch_hash"
  let ?k = "length (takeWhile ?P s)"
  from assms have k: "1 \<le> ?k" "?k \<le> 6"
    by (simp_all add: heading_here_def Let_def)
  from assms obtain rest where d: "dropWhile ?P s = ch_space # rest"
    by (auto simp: heading_here_def Let_def split: list.splits)
  have "s = takeWhile ?P s @ dropWhile ?P s" by simp
  also have "takeWhile ?P s = replicate ?k ch_hash" by (rule hashes_run)
  finally have "s = replicate ?k ch_hash @ ch_space # rest" by (simp only: d)
  with k show ?thesis by blast
qed

lemma heading_hereI:
  "1 \<le> k \<Longrightarrow> k \<le> 6 \<Longrightarrow> heading_here (replicate k ch_hash @ ch_space # rest)"
  using space_not_hash
  by (simp add: heading_here_def Let_def takeWhile_hashes dropWhile_hashes)

lemma heading_startI:
  assumes "1 \<le> k" "k \<le> 6" and r: "r = [] \<or> hd r = ch_space \<or> take 2 r = sep"
  shows "heading_start (replicate k ch_hash @ r)"
proof -
  from r have "r = [] \<or> hd r \<noteq> ch_hash"
    using space_not_hash nl_not_hash by (cases r) (auto simp: sep_def)
  then have "takeWhile (\<lambda>c. c = ch_hash) (replicate k ch_hash @ r) = replicate k ch_hash"
    and "dropWhile (\<lambda>c. c = ch_hash) (replicate k ch_hash @ r) = r"
    by (rule takeWhile_hashes, rule dropWhile_hashes)
  with assms show ?thesis by (simp add: heading_start_def Let_def)
qed

lemma heading_startE:
  assumes "heading_start s"
  shows "\<exists>k r. 1 \<le> k \<and> k \<le> 6 \<and> s = replicate k ch_hash @ r \<and>
           (r = [] \<or> hd r = ch_space \<or> take 2 r = sep)"
proof -
  let ?P = "\<lambda>c. c = ch_hash"
  let ?k = "length (takeWhile ?P s)"
  let ?r = "dropWhile ?P s"
  from assms have k: "1 \<le> ?k" "?k \<le> 6" and r: "?r = [] \<or> hd ?r = ch_space \<or> take 2 ?r = sep"
    by (simp_all add: heading_start_def Let_def)
  have "s = takeWhile ?P s @ ?r" by simp
  also have "takeWhile ?P s = replicate ?k ch_hash" by (rule hashes_run)
  finally have "s = replicate ?k ch_hash @ ?r" .
  with k r show ?thesis by blast
qed

lemma heading_start_append:
  assumes "heading_start x"
  shows "heading_start (x @ sep @ y)"
proof -
  from heading_startE [OF assms] obtain k r where k: "1 \<le> k" "k \<le> 6"
    and x: "x = replicate k ch_hash @ r"
    and r: "r = [] \<or> hd r = ch_space \<or> take 2 r = sep"
    by blast
  have "r @ sep @ y = [] \<or> hd (r @ sep @ y) = ch_space \<or> take 2 (r @ sep @ y) = sep"
  proof (cases "r = []")
    case True
    then show ?thesis by (simp add: sep_def)
  next
    case False
    show ?thesis
    proof (cases "hd r = ch_space")
      case True
      with False show ?thesis by simp
    next
      case nsp: False
      with False r have t: "take 2 r = sep" by simp
      then have "length (take 2 r) = 2" by (simp add: sep_def)
      then have "2 \<le> length r" by simp
      with t show ?thesis by simp
    qed
  qed
  from heading_startI [OF k this] x show ?thesis by simp
qed

lemma rstrip_append:
  "rstrip (a @ b) = (if \<forall>x\<in>set b. is_space x then rstrip a else a @ rstrip b)"
  by (simp add: rstrip_def dropWhile_append)

lemma rstrip_hashes: "rstrip (replicate k ch_hash) = replicate k ch_hash"
proof -
  have "dropWhile is_space (replicate k ch_hash) = replicate k ch_hash"
    using not_space_hash by (cases k) simp_all
  then show ?thesis by (simp add: rstrip_def)
qed

lemma lstrip_hashes: "1 \<le> k \<Longrightarrow> lstrip (replicate k ch_hash @ r) = replicate k ch_hash @ r"
  using not_space_hash by (cases k) (simp_all add: lstrip_def)

lemma rstrip_space_Cons:
  "\<not> (\<forall>x\<in>set rest. is_space x) \<Longrightarrow> rstrip (ch_space # rest) = ch_space # rstrip rest"
proof -
  assume "\<not> (\<forall>x\<in>set rest. is_space x)"
  then have "rstrip ([ch_space] @ rest) = [ch_space] @ rstrip rest"
    by (simp only: rstrip_append if_False)
  then show ?thesis by simp
qed

lemma heading_here_strip:
  assumes "heading_here p"
  shows "heading_start (strip p)"
proof -
  from heading_hereE [OF assms] obtain k rest where k: "1 \<le> k" "k \<le> 6"
    and p: "p = replicate k ch_hash @ ch_space # rest"
    by blast
  have l: "strip p = rstrip (replicate k ch_hash @ ch_space # rest)"
    using k(1) by (simp add: strip_def p lstrip_hashes)
  show ?thesis
  proof (cases "\<forall>x\<in>set rest. is_space x")
    case True
    then have "\<forall>x\<in>set (ch_space # rest). is_space x" using is_space_space by simp
    then have "strip p = replicate k ch_hash"
      by (simp add: l rstrip_append rstrip_hashes is_space_space)
    moreover have "heading_start (replicate k ch_hash @ [])"
      using k by (rule heading_startI) simp
    ultimately show ?thesis by simp
  next
    case False
    then have "\<not> (\<forall>x\<in>set (ch_space # rest). is_space x)" by simp
    then have "strip p = replicate k ch_hash @ rstrip (ch_space # rest)"
      by (auto simp: l rstrip_append is_space_space)
    also have "rstrip (ch_space # rest) = ch_space # rstrip rest"
      using False by (rule rstrip_space_Cons)
    finally have "strip p = replicate k ch_hash @ ch_space # rstrip rest" .
    moreover have "heading_start (replicate k ch_hash @ ch_space # rstrip rest)"
      using k by (rule heading_startI) simp
    ultimately show ?thesis by simp
  qed
qed

lemma heading_here_prefix:
  assumes "heading_here (a @ b)" and "a \<noteq> []" and "last a = ch_nl"
  shows "heading_here a"
proof -
  let ?P = "\<lambda>c. c = ch_hash"
  from assms(2,3) have m: "ch_nl \<in> set a" by (metis last_in_set)
  have n: "\<not> ?P ch_nl" by (rule nl_not_hash)
  have t: "takeWhile ?P (a @ b) = takeWhile ?P a"
    using m n by (rule takeWhile_append1)
  have d: "dropWhile ?P (a @ b) = dropWhile ?P a @ b"
    using m n by (rule dropWhile_append1)
  from m n have "dropWhile ?P a \<noteq> []" by auto
  then obtain x xs where c: "dropWhile ?P a = x # xs" by (cases "dropWhile ?P a") auto
  from assms(1) show ?thesis
    by (simp add: heading_here_def t d c)
qed

lemma re_split_from_headings:
  "heading_here (cur @ s) \<Longrightarrow> cur \<noteq> [] \<Longrightarrow> (bol \<longrightarrow> last cur = ch_nl) \<Longrightarrow>
   \<forall>p\<in>set (re_split_from bol cur s). heading_here p"
proof (induction s arbitrary: bol cur)
  case Nil
  then show ?case by simp
next
  case (Cons c s)
  show ?case
  proof (cases "bol \<and> heading_here (c # s)")
    case True
    with Cons.prems have "heading_here cur"
      by (auto intro: heading_here_prefix)
    moreover have "\<forall>p\<in>set (re_split_from (c = ch_nl) [c] s). heading_here p"
      using True by (intro Cons.IH) simp_all
    ultimately show ?thesis using True by simp
  next
    case False
    have "\<forall>p\<in>set (re_split_from (c = ch_nl) (cur @ [c]) s). heading_here p"
      using Cons.prems by (intro Cons.IH) simp_all
    with False show ?thesis by auto
  qed
qed

lemma re_split_from_tl_headings:
  "\<forall>p\<in>set (tl (re_split_from bol cur s)). heading_here p"
proof (induction s arbitrary: bol cur)
  case Nil
  show ?case by simp
next
  case (Cons c s)
  show ?case
  proof (cases "bol \<and> heading_here (c # s)")
    case True
    have "\<forall>p\<in>set (re_split_from (c = ch_nl) [c] s). heading_here p"
      using True by (intro re_split_from_headings) simp_all
    with True show ?thesis by simp
  next
    case False
    with Cons [of "c = ch_nl" "cur @ [c]"] show ?thesis by auto
  qed
qed

lemma in_set_tl: "x \<in> set (tl xs) \<Longrightarrow> x \<in> set xs"
  by (cases xs) simp_all

lemma kept_tl_headings:
  assumes "\<forall>p\<in>set (tl ps). heading_here p"
  shows "\<forall>c\<in>set (tl (map strip (filter (\<lambda>chunk. strip chunk \<noteq> []) ps))). heading_start c"
proof (cases ps)
  case Nil
  then show ?thesis by simp
next
  case (Cons p0 rest)
  with assms have "\<forall>p\<in>set rest. heading_here p" by simp
  then have a: "\<forall>c\<in>set (map strip (filter (\<lambda>chunk. strip chunk \<noteq> []) rest)). heading_start c"
    by (auto intro: heading_here_strip)
  show ?thesis
  proof (cases "strip p0 \<noteq> []")
    case True
    with Cons a show ?thesis by simp
  next
    case False
    from a have "\<forall>c\<in>set (tl (map strip (filter (\<lambda>chunk. strip chunk \<noteq> []) rest))). heading_start c"
      by (blast dest: in_set_tl)
    with Cons False show ?thesis by simp
  qed
qed

lemma merge_loop_headings:
  "merge_loop mn merged q = Inr r \<Longrightarrow> \<forall>c\<in>set (tl (merged @ q)). heading_start c \<Longrightarrow>
   \<forall>c\<in>set (tl r). heading_start c"
proof (induction mn merged q rule: merge_loop.induct)
  case (1 mn merged)
  then show ?case by simp
next
  case (2 mn merged chunk chunks)
  note run = \<open>merge_loop mn merged (chunk # chunks) = Inr r\<close>
  note inv = \<open>\<forall>c\<in>set (tl (merged @ chunk # chunks)). heading_start c\<close>
  show ?case
  proof (cases "mn < int (length chunk)")
    case True
    from run True have "merge_loop mn (merged @ [chunk]) chunks = Inr r"
      by (simp add: merge_loop_big)
    moreover from inv have "\<forall>c\<in>set (tl ((merged @ [chunk]) @ chunks)). heading_start c"
      by simp
    ultimately show ?thesis by (rule "2.IH"(1) [OF True])
  next
    case False
    show ?thesis
    proof (cases chunks)
      case (Cons nxt rest)
      from run False Cons have "merge_loop mn merged ((chunk @ sep @ nxt) # rest) = Inr r"
        by (simp add: merge_loop_fold)
      moreover have "\<forall>c\<in>set (tl (merged @ (chunk @ sep @ nxt) # rest)). heading_start c"
      proof (cases merged)
        case Nil
        with inv Cons show ?thesis by simp
      next
        case (Cons m ms)
        with inv \<open>chunks = nxt # rest\<close> show ?thesis
          by (auto intro: heading_start_append)
      qed
      ultimately show ?thesis by (rule "2.IH"(3) [OF False Cons])
    next
      case Nil
      show ?thesis
      proof (cases "merged = []")
        case True
        from run have "merge_loop mn [] [chunk] = Inr r" by (simp only: Nil True)
        with False show ?thesis by (simp add: merge_loop_raise)
      next
        case ne: False
        from run have "merge_loop mn merged [chunk] = Inr r" by (simp only: Nil)
        with False ne have r: "r = butlast merged @ [last merged @ sep @ chunk]"
          by (simp add: merge_loop_tail)
        from ne obtain m ms where m: "merged = m # ms" by (cases merged) auto
        show ?thesis
        proof (cases "ms = []")
          case True
          with r m show ?thesis by simp
        next
          case nms: False
          from inv m Nil have a: "\<forall>c\<in>set ms. heading_start c" by simp
          with nms have "heading_start (last ms)" by simp
          then have "heading_start (last ms @ sep @ chunk)" by (rule heading_start_append)
          moreover from a have "\<forall>c\<in>set (butlast ms). heading_start c"
            by (auto dest: in_set_butlastD)
          moreover from r m nms have "tl r = butlast ms @ [last ms @ sep @ chunk]" by simp
          ultimately show ?thesis by simp
        qed
      qed
    qed
  qed
qed

section \<open>The pattern and the failure of the merge pass, characterised\<close>

text \<open>
  \<open>heading_here\<close> is the pattern as the regular expression states it: some \<open>k\<close> between
  1 and 6, \<open>k\<close> characters \<^verbatim>\<open>#\<close>, then a space. The merge pass raises exactly when it is
  given two or more chunks that, joined, are still not longer than \<^verbatim>\<open>min_chunk_size\<close>.
\<close>

lemma heading_here_iff:
  "heading_here s \<longleftrightarrow>
   (\<exists>k. 1 \<le> k \<and> k \<le> 6 \<and> k < length s \<and> take k s = replicate k ch_hash \<and> s ! k = ch_space)"
proof
  assume "heading_here s"
  from heading_hereE [OF this] obtain k rest where k: "1 \<le> k" "k \<le> 6"
    and s: "s = replicate k ch_hash @ ch_space # rest"
    by blast
  from s have "k < length s" "take k s = replicate k ch_hash" "s ! k = ch_space"
    by (simp_all add: nth_append)
  with k show "\<exists>k. 1 \<le> k \<and> k \<le> 6 \<and> k < length s \<and> take k s = replicate k ch_hash \<and> s ! k = ch_space"
    by blast
next
  assume "\<exists>k. 1 \<le> k \<and> k \<le> 6 \<and> k < length s \<and> take k s = replicate k ch_hash \<and> s ! k = ch_space"
  then obtain k where k: "1 \<le> k" "k \<le> 6" and l: "k < length s"
    and t: "take k s = replicate k ch_hash" and n: "s ! k = ch_space"
    by blast
  have "s = take k s @ drop k s" by simp
  also from l have "drop k s = s ! k # drop (Suc k) s" by (simp add: Cons_nth_drop_Suc)
  finally have "s = replicate k ch_hash @ ch_space # drop (Suc k) s" by (simp only: t n)
  with heading_hereI [OF k, of "drop (Suc k) s"] show "heading_here s" by simp
qed

lemma join_fold: "join s ((x @ s @ y) # r) = join s (x # y # r)"
  by (cases r) simp_all

lemma length_join_ge: "length x \<le> length (join s (x # xs))"
  by (cases xs) simp_all

lemma merge_loop_raises_iff:
  "merge_loop mn merged q = Inl e \<longleftrightarrow>
   e = IndexError \<and> merged = [] \<and> q \<noteq> [] \<and> int (length (join sep q)) \<le> mn"
proof (induction mn merged q rule: merge_loop.induct)
  case (1 mn merged)
  show ?case by simp
next
  case (2 mn merged chunk chunks)
  show ?case
  proof (cases "mn < int (length chunk)")
    case True
    have "int (length chunk) \<le> int (length (join sep (chunk # chunks)))"
      using length_join_ge [of chunk sep chunks] by simp
    with True have "\<not> int (length (join sep (chunk # chunks))) \<le> mn" by simp
    with True "2.IH"(1) [OF True] show ?thesis by (simp add: merge_loop_big)
  next
    case False
    show ?thesis
    proof (cases chunks)
      case (Cons nxt rest)
      with False "2.IH"(3) [OF False Cons] show ?thesis
        by (simp add: merge_loop_fold join_fold)
    next
      case Nil
      show ?thesis
      proof (cases "merged = []")
        case True
        with Nil False show ?thesis by (auto simp: merge_loop_raise)
      next
        case ne: False
        with Nil False show ?thesis by (simp add: merge_loop_tail)
      qed
    qed
  qed
qed

lemma merge_small_chunks_raises_iff:
  "merge_small_chunks mn cs = Inl e \<longleftrightarrow>
   e = IndexError \<and> 2 \<le> length cs \<and> int (length (join sep cs)) \<le> mn"
proof (cases "length cs \<le> 1")
  case True
  then show ?thesis by (simp add: merge_small_chunks_def)
next
  case False
  then have "cs \<noteq> []" "2 \<le> length cs" by auto
  with False show ?thesis by (simp add: merge_small_chunks_def merge_loop_raises_iff)
qed

section \<open>Unfolding for concrete inputs\<close>

lemmas chunker_defs =
  split_markdown_def merge_small_chunks_def merge_loop.simps(2) re_split_def heading_here_def
  strip_def lstrip_def rstrip_def is_space_def str_def sep_def ch_hash_def ch_space_def ch_nl_def

lemmas driver_defs =
  translate_file_def translate_text_def fix_text_def run_chunks_def translate_chunk_def
  translate_try_def translate_chunk_cli_def fix_chunk_def cli_try_def first_content_def

section \<open>Properties of the chunker\<close>

text \<open>
  C1. The claim is that \<^verbatim>\<open>_merge_small_chunks\<close> returns normally for every list of chunks
  and every positive \<^verbatim>\<open>min_chunk_size\<close>. On the two chunks \<^verbatim>\<open>"a"\<close> and \<^verbatim>\<open>"b"\<close> with
  \<^verbatim>\<open>min_chunk_size = 500\<close> the first is folded into the second, the result is still
  undersized and is the last of the queue, and \<^verbatim>\<open>merged_chunks[-1]\<close> is evaluated on the
  empty list: the call raises \<^verbatim>\<open>IndexError\<close>.
\<close>

theorem merge_small_chunks_raises_when_nothing_finalized:
  "merge_small_chunks 500 [str ''a'', str ''b''] = Inl IndexError"
  by (simp add: chunker_defs)

text \<open>
  C4. A text of length at most \<^verbatim>\<open>max_chunk_size\<close> comes back as the only chunk, unchanged:
  no trimming, no splitting at headings, no merging.
\<close>

theorem split_markdown_short_circuit:
  "int (length text) \<le> mx \<Longrightarrow> split_markdown mx mn text = Inr [text]"
  by (simp add: split_markdown_def)

theorem split_markdown_short_circuit_witness:
  "int (length (str ''  # short text '')) \<le> 5000 \<and>
   split_markdown 5000 500 (str ''  # short text '') = Inr [str ''  # short text '']"
  using split_markdown_short_circuit [of "str ''  # short text ''" 5000 500]
  by (simp add: str_def)

text \<open>
  C5. The claim is that the merge pass folds the three segments \<^verbatim>\<open>"# A\nfoo"\<close>,
  \<^verbatim>\<open>"# B\nbar"\<close> and \<^verbatim>\<open>"# C\nbaz"\<close> into one chunk when \<^verbatim>\<open>min_chunk_size = 500\<close>. The code
  folds the first into the second and that into the third, and then raises
  \<^verbatim>\<open>IndexError\<close>, since no chunk was finalized for the last one to be appended to.
\<close>

theorem merge_small_chunks_three_sections_raises:
  "merge_small_chunks 500
     [str ''# A\<newline>foo'', str ''# B\<newline>bar'', str ''# C\<newline>baz''] = Inl IndexError"
  by (simp add: chunker_defs)

text \<open>
  C6. Two chunks, the first longer than \<^verbatim>\<open>min_chunk_size\<close> and the second not: the merge
  pass returns the single chunk made of the first, \<^verbatim>\<open>"\n\n"\<close> and the second.
\<close>

theorem merge_small_chunks_tail_fold:
  "int (length section1) > mn \<Longrightarrow> int (length section2) \<le> mn \<Longrightarrow>
   merge_small_chunks mn [section1, section2] = Inr [section1 @ sep @ section2]"
  by (simp add: merge_small_chunks_def merge_loop_big merge_loop_tail)

theorem merge_small_chunks_tail_fold_witness:
  "int (length (str ''# Long'')) > 3 \<and> int (length (str ''# B'')) \<le> 3 \<and>
   merge_small_chunks 3 [str ''# Long'', str ''# B''] = Inr [str ''# Long\<newline>\<newline># B'']"
  using merge_small_chunks_tail_fold [of 3 "str ''# Long''" "str ''# B''"]
  by (simp add: str_def sep_def ch_nl_def)

text \<open>
  C3. Whenever \<^verbatim>\<open>split_markdown\<close> returns, the chunks concatenated in order hold the
  non-whitespace characters of the text, all of them, each once and in the original
  order.
\<close>

theorem split_markdown_preserves_content:
  "split_markdown mx mn text = Inr cs \<Longrightarrow> non_space (concat cs) = non_space text"
proof (cases "int (length text) \<le> mx")
  case True
  assume "split_markdown mx mn text = Inr cs"
  with True have "cs = [text]" by (simp add: split_markdown_def)
  then show ?thesis by simp
next
  case False
  let ?ps = "map strip (filter (\<lambda>chunk. strip chunk \<noteq> []) (re_split text))"
  assume "split_markdown mx mn text = Inr cs"
  with False have "merge_small_chunks mn ?ps = Inr cs"
    by (simp add: split_markdown_def)
  then have "non_space (concat cs) = non_space (concat ?ps)"
    by (rule merge_small_chunks_non_space)
  then show ?thesis by (simp only: non_space_concat_kept concat_re_split)
qed

theorem split_markdown_preserves_content_witness:
  "split_markdown 5 1 (str ''ab\<newline>## \<newline># c'') = Inr [str ''ab'', str ''##'', str ''# c''] \<and>
   non_space (concat [str ''ab'', str ''##'', str ''# c'']) = non_space (str ''ab\<newline>## \<newline># c'')"
proof -
  have h: "split_markdown 5 1 (str ''ab\<newline>## \<newline># c'') = Inr [str ''ab'', str ''##'', str ''# c'']"
    by (simp add: chunker_defs)
  from split_markdown_preserves_content [OF h] h show ?thesis by simp
qed

text \<open>
  C2. When \<^verbatim>\<open>split_markdown\<close> returns at least two chunks, every chunk but the last is
  longer than \<^verbatim>\<open>min_chunk_size\<close>.
\<close>

theorem split_markdown_min_size:
  "split_markdown mx mn text = Inr cs \<Longrightarrow> 2 \<le> length cs \<Longrightarrow>
   \<forall>c\<in>set (butlast cs). int (length c) > mn"
proof -
  assume a: "split_markdown mx mn text = Inr cs" and b: "2 \<le> length cs"
  let ?ps = "map strip (filter (\<lambda>chunk. strip chunk \<noteq> []) (re_split text))"
  from a b have "merge_loop mn [] ?ps = Inr cs"
    by (auto simp: split_markdown_def merge_small_chunks_def split: if_splits)
  then have "\<forall>c\<in>set cs. mn < int (length c)"
    by (rule merge_loop_min) simp
  then show ?thesis by (auto dest: in_set_butlastD)
qed

theorem split_markdown_min_size_witness:
  "split_markdown 5 1 (str ''ab\<newline>## \<newline># c'') = Inr [str ''ab'', str ''##'', str ''# c''] \<and>
   2 \<le> length [str ''ab'', str ''##'', str ''# c''] \<and>
   int (length (str ''ab'')) > 1 \<and> int (length (str ''##'')) > 1"
proof -
  have h: "split_markdown 5 1 (str ''ab\<newline>## \<newline># c'') = Inr [str ''ab'', str ''##'', str ''# c'']"
    by (simp add: chunker_defs)
  have l: "2 \<le> length [str ''ab'', str ''##'', str ''# c'']" by simp
  from split_markdown_min_size [OF h l] h l show ?thesis by simp
qed

section \<open>Properties of the driver\<close>

text \<open>
  C10. A text longer than \<^verbatim>\<open>max_chunk_size\<close> that consists of whitespace only has no
  heading line; \<^verbatim>\<open>split_markdown\<close> returns no chunk at all, and each driver returns the
  empty document without any transform or pause.
\<close>

theorem split_markdown_whitespace_only:
  "int (length text) > mx \<Longrightarrow> list_all is_space text \<Longrightarrow>
   split_markdown mx mn text = Inr [] \<and>
   translate_text cl mx mn delay text = Inr ([], []) \<and>
   fix_text cl mx mn delay text = Inr ([], []) \<and>
   translate_file cl mx mn delay text = Inr ([], [])"
  by (simp add: split_markdown_spaces translate_text_def fix_text_def translate_file_def
      run_chunks_Nil)

theorem split_markdown_whitespace_only_witness:
  "int (length (str ''  \<newline> '')) > 3 \<and> list_all is_space (str ''  \<newline> '') \<and>
   split_markdown 3 500 (str ''  \<newline> '') = Inr [] \<and>
   translate_text (\<lambda>k c. Inl (ClientError ''unreachable'')) 3 500 1 (str ''  \<newline> '') = Inr ([], []) \<and>
   fix_text (\<lambda>k c. Inl (ClientError ''unreachable'')) 3 500 1 (str ''  \<newline> '') = Inr ([], []) \<and>
   translate_file (\<lambda>k c. Inl (ClientError ''unreachable'')) 3 500 1 (str ''  \<newline> '') = Inr ([], [])"
proof -
  have a: "int (length (str ''  \<newline> '')) > 3" by (simp add: str_def)
  have b: "list_all is_space (str ''  \<newline> '')" by (simp add: str_def is_space_def)
  from split_markdown_whitespace_only [OF a b] a b show ?thesis by simp
qed

text \<open>
  C8. The loop pauses after each chunk but the last: with a positive delay the trace of
  \<open>n\<close> chunks is a transform followed by a pause for each of the first \<open>n - 1\<close> chunks and
  a transform alone for the last, \<open>n - 1\<close> pauses in all (none for \<open>n = 0\<close>); with a delay
  that is not positive there is no pause. The three drivers run this loop on the chunks
  of \<^verbatim>\<open>split_markdown\<close>.
\<close>

theorem driving_loop_pauses:
  "(0 < delay \<longrightarrow>
      snd (run_chunks per_chunk delay chunks) =
        concat (map (\<lambda>i. if Suc i < length chunks then [Transform i, Sleep delay] else [Transform i])
          [0..<length chunks]) \<and>
      length (filter is_sleep (snd (run_chunks per_chunk delay chunks))) = length chunks - 1) \<and>
   (\<not> 0 < delay \<longrightarrow>
      snd (run_chunks per_chunk delay chunks) = map Transform [0..<length chunks] \<and>
      length (filter is_sleep (snd (run_chunks per_chunk delay chunks))) = 0) \<and>
   (split_markdown mx mn text = Inr chunks \<longrightarrow>
      translate_file cl mx mn delay text = Inr (run_chunks (translate_chunk cl) delay chunks) \<and>
      translate_text cl mx mn delay text = Inr (run_chunks (translate_chunk_cli cl) delay chunks) \<and>
      fix_text cl mx mn delay text = Inr (run_chunks (fix_chunk cl) delay chunks))"
proof (intro conjI impI)
  assume d: "0 < delay"
  show t: "snd (run_chunks per_chunk delay chunks) =
        concat (map (\<lambda>i. if Suc i < length chunks then [Transform i, Sleep delay] else [Transform i])
          [0..<length chunks])"
    using d by (rule run_chunks_trace_paused)
  show "length (filter is_sleep (snd (run_chunks per_chunk delay chunks))) = length chunks - 1"
  proof -
    have "length (filter is_sleep (concat (map
        (\<lambda>i. if Suc i < length chunks then [Transform i, Sleep delay] else [Transform i])
        [0..<length chunks]))) = min (length chunks) (length chunks - 1)"
      by (rule sleeps_count) simp
    then show ?thesis by (simp add: t)
  qed
next
  assume d: "\<not> 0 < delay"
  show t: "snd (run_chunks per_chunk delay chunks) = map Transform [0..<length chunks]"
    using d by (rule run_chunks_trace_unpaused)
  show "length (filter is_sleep (snd (run_chunks per_chunk delay chunks))) = 0"
    by (simp only: t filter_sleep_map_Transform list.size)
next
  assume s: "split_markdown mx mn text = Inr chunks"
  show "translate_file cl mx mn delay text = Inr (run_chunks (translate_chunk cl) delay chunks)"
    using s by (simp add: translate_file_def)
  show "translate_text cl mx mn delay text = Inr (run_chunks (translate_chunk_cli cl) delay chunks)"
    using s by (simp add: translate_text_def)
  show "fix_text cl mx mn delay text = Inr (run_chunks (fix_chunk cl) delay chunks)"
    using s by (simp add: fix_text_def)
qed

theorem driving_loop_pauses_witness:
  "(0::real) < 2 \<and> \<not> (0::real) < 0 \<and>
   split_markdown 5 1 (str ''ab\<newline>## \<newline># c'') = Inr [str ''ab'', str ''##'', str ''# c''] \<and>
   snd (run_chunks (\<lambda>c i n. c) 2 [str ''ab'', str ''##'', str ''# c'']) =
     [Transform 0, Sleep 2, Transform 1, Sleep 2, Transform 2] \<and>
   length (filter is_sleep (snd (run_chunks (\<lambda>c i n. c) 2 [str ''ab'', str ''##'', str ''# c'']))) = 2 \<and>
   snd (run_chunks (\<lambda>c i n. c) 0 [str ''ab'', str ''##'', str ''# c'']) =
     [Transform 0, Transform 1, Transform 2] \<and>
   translate_text (\<lambda>k c. Inl (ClientError ''quota'')) 5 1 2 (str ''ab\<newline>## \<newline># c'') =
     Inr (str ''ab\<newline>\<newline>##\<newline>\<newline># c'',
          [Transform 0, Sleep 2, Transform 1, Sleep 2, Transform 2])"
proof -
  have h: "split_markdown 5 1 (str ''ab\<newline>## \<newline># c'') = Inr [str ''ab'', str ''##'', str ''# c'']"
    by (simp add: chunker_defs)
  have u: "[0..<length [str ''ab'', str ''##'', str ''# c'']] = [0, 1, 2]"
    by (simp add: upt_rec)
  note a = driving_loop_pauses [of 2 "\<lambda>c i n. c" "[str ''ab'', str ''##'', str ''# c'']" 5 1
      "str ''ab\<newline>## \<newline># c''" "\<lambda>k c. Inl (ClientError ''quota'')"]
  note b = driving_loop_pauses [of 0 "\<lambda>c i n. c" "[str ''ab'', str ''##'', str ''# c'']" 5 1
      "str ''ab\<newline>## \<newline># c''" "\<lambda>k c. Inl (ClientError ''quota'')"]
  have p: "snd (run_chunks (\<lambda>c i n. c) 2 [str ''ab'', str ''##'', str ''# c'']) =
      [Transform 0, Sleep 2, Transform 1, Sleep 2, Transform 2]"
    using a by (simp add: u)
  have c: "length (filter is_sleep (snd (run_chunks (\<lambda>c i n. c) 2 [str ''ab'', str ''##'', str ''# c'']))) = 2"
    using a by simp
  have q: "snd (run_chunks (\<lambda>c i n. c) 0 [str ''ab'', str ''##'', str ''# c'']) =
      [Transform 0, Transform 1, Transform 2]"
    using b by (simp add: u)
  have t: "translate_text (\<lambda>k c. Inl (ClientError ''quota'')) 5 1 2 (str ''ab\<newline>## \<newline># c'') =
     Inr (str ''ab\<newline>\<newline>##\<newline>\<newline># c'',
          [Transform 0, Sleep 2, Transform 1, Sleep 2, Transform 2])"
  proof -
    from a h have "translate_text (\<lambda>k c. Inl (ClientError ''quota'')) 5 1 2 (str ''ab\<newline>## \<newline># c'') =
        Inr (run_chunks (translate_chunk_cli (\<lambda>k c. Inl (ClientError ''quota''))) 2
          [str ''ab'', str ''##'', str ''# c''])"
      by blast
    also have "run_chunks (translate_chunk_cli (\<lambda>k c. Inl (ClientError ''quota''))) 2
          [str ''ab'', str ''##'', str ''# c''] =
        (str ''ab\<newline>\<newline>##\<newline>\<newline># c'',
          [Transform 0, Sleep 2, Transform 1, Sleep 2, Transform 2])"
      by (simp add: driver_defs str_def sep_def ch_nl_def)
    finally show ?thesis .
  qed
  from h p c q t show ?thesis by simp
qed



section \<open>The shape of the chunks\<close>

text \<open>
  C9. The claim is that every chunk but the first starts with one to six \<^verbatim>\<open>#\<close> and a
  space. \<^verbatim>\<open>strip\<close> removes the space of a heading line that has nothing but whitespace
  after its marker, so the claim fails as stated (counterexample below). What holds: every
  chunk but the first starts with one to six \<^verbatim>\<open>#\<close> followed by a space, by the end of the
  chunk, or by the separator \<^verbatim>\<open>"\n\n"\<close> of a fold.
\<close>

theorem split_markdown_chunks_start_with_hashes:
  assumes "int (length text) > mx" and "split_markdown mx mn text = Inr cs"
  shows "\<forall>c\<in>set (tl cs). heading_start c"
proof -
  let ?ps = "map strip (filter (\<lambda>chunk. strip chunk \<noteq> []) (re_split text))"
  have ps: "\<forall>c\<in>set (tl ?ps). heading_start c"
    unfolding re_split_def by (rule kept_tl_headings) (rule re_split_from_tl_headings)
  from assms have m: "merge_small_chunks mn ?ps = Inr cs"
    by (simp add: split_markdown_def)
  show ?thesis
  proof (cases "length ?ps \<le> 1")
    case True
    with m have "cs = ?ps" by (simp add: merge_small_chunks_def)
    with ps show ?thesis by simp
  next
    case False
    with m have "merge_loop mn [] ?ps = Inr cs" by (simp add: merge_small_chunks_def)
    moreover from ps have "\<forall>c\<in>set (tl ([] @ ?ps)). heading_start c" by simp
    ultimately show ?thesis by (rule merge_loop_headings)
  qed
qed

theorem split_markdown_heading_space_counterexample:
  "int (length (str ''ab\<newline>## \<newline># c'')) > 5 \<and>
   split_markdown 5 1 (str ''ab\<newline>## \<newline># c'') = Inr [str ''ab'', str ''##'', str ''# c''] \<and>
   \<not> heading_here ([str ''ab'', str ''##'', str ''# c''] ! 1)"
  by (simp add: chunker_defs)

theorem split_markdown_chunks_start_with_hashes_witness:
  "int (length (str ''ab\<newline>## \<newline># c'')) > 5 \<and>
   split_markdown 5 1 (str ''ab\<newline>## \<newline># c'') = Inr [str ''ab'', str ''##'', str ''# c''] \<and>
   heading_start (str ''##'') \<and> heading_start (str ''# c'')"
proof -
  have a: "int (length (str ''ab\<newline>## \<newline># c'')) > 5" by (simp add: str_def)
  have h: "split_markdown 5 1 (str ''ab\<newline>## \<newline># c'') = Inr [str ''ab'', str ''##'', str ''# c'']"
    by (simp add: chunker_defs)
  from split_markdown_chunks_start_with_hashes [OF a h] a h show ?thesis by simp
qed

end
